theory Spec2Isabelle
  imports Main
begin

section \<open>Data model of Final2.cpp\<close>

text \<open>
  A search node (struct Node): the cell, the cost \<open>g\<close> from the start, the heuristic
  \<open>h\<close>, and the parent pointer. A node is never written after its construction, so the
  pointer is modelled by the parent node itself (\<open>None\<close> is \<open>nullptr\<close>).
  The C++ \<open>int\<close> values are modelled as unbounded integers: coordinates are assumed to
  be small enough that no signed addition of the program overflows.
\<close>

datatype Node = Node (node_x: int) (node_y: int) (node_g: int) (node_h: int)
  (node_parent: "Node option")

type_synonym cell = "int \<times> int"
type_synonym path = "cell list"
type_synonym grid = "int list list"

text \<open>
  Indexing a vector outside its extent is undefined behaviour in C++. The model makes
  every such access an explicit fault.
\<close>

datatype fault = OutOfRange

text \<open>Node::f\<close>

definition node_f :: "Node \<Rightarrow> int" where
  "node_f n = node_g n + node_h n"

definition node_cell :: "Node \<Rightarrow> cell" where
  "node_cell n = (node_x n, node_y n)"

definition heuristic :: "int \<Rightarrow> int \<Rightarrow> int \<Rightarrow> int \<Rightarrow> int" where
  "heuristic x y destX destY = \<bar>destX - x\<bar> + \<bar>destY - y\<bar>"

definition isValid :: "int \<Rightarrow> int \<Rightarrow> int \<Rightarrow> int \<Rightarrow> bool" where
  "isValid x y rows cols = (x \<ge> 0 \<and> y \<ge> 0 \<and> x < rows \<and> y < cols)"

text \<open>\<open>map.size()\<close> and \<open>map[0].size()\<close>, read once at the head of aStar.\<close>

definition grid_rows :: "grid \<Rightarrow> int" where
  "grid_rows m = int (length m)"

definition grid_cols :: "grid \<Rightarrow> int" where
  "grid_cols m = int (length (m ! 0))"

text \<open>\<open>v[i][j]\<close> on a vector of vectors: \<open>None\<close> outside the extent.\<close>

definition at2 :: "'a list list \<Rightarrow> int \<Rightarrow> int \<Rightarrow> 'a option" where
  "at2 v i j =
     (if 0 \<le> i \<and> i < int (length v) \<and> 0 \<le> j \<and> j < int (length (v ! nat i))
      then Some (v ! nat i ! nat j) else None)"

section \<open>The frontier: std::priority_queue with the comparator \<open>a->f() > b->f()\<close>\<close>

text \<open>
  The queue is modelled by the list of its elements in the order they were pushed.
  \<open>top\<close> is an element that the comparator puts before no other element, that is, one
  of least \<open>f\<close>. Which of several such elements is on top depends on the heap layout;
  the model takes that choice from a number \<open>c\<close>, so a property proved for every \<open>c\<close>
  holds for every heap implementation.
\<close>

definition pq_on_top :: "Node list \<Rightarrow> nat \<Rightarrow> bool" where
  "pq_on_top pq i = list_all (\<lambda>n. \<not> node_f (pq ! i) > node_f n) pq"

definition pq_candidates :: "Node list \<Rightarrow> nat list" where
  "pq_candidates pq = filter (pq_on_top pq) [0..<length pq]"

definition pq_top_index :: "nat \<Rightarrow> Node list \<Rightarrow> nat" where
  "pq_top_index c pq = pq_candidates pq ! (c mod length (pq_candidates pq))"

definition pq_top :: "nat \<Rightarrow> Node list \<Rightarrow> Node" where
  "pq_top c pq = pq ! pq_top_index c pq"

definition pq_pop :: "nat \<Rightarrow> Node list \<Rightarrow> Node list" where
  "pq_pop c pq = take (pq_top_index c pq) pq @ drop (Suc (pq_top_index c pq)) pq"

definition pq_push :: "Node \<Rightarrow> Node list \<Rightarrow> Node list" where
  "pq_push n pq = pq @ [n]"

section \<open>aStar\<close>

text \<open>The path reconstruction loop: follow the parent pointers from a node.\<close>

fun chain :: "Node \<Rightarrow> path" where
  "chain (Node x y g h p) = (x, y) # (case p of None \<Rightarrow> [] | Some q \<Rightarrow> chain q)"

text \<open>The arrays \<open>dx\<close> and \<open>dy\<close>, zipped: right, left, down, up.\<close>

definition moves :: "(int \<times> int) list" where
  "moves = [(1, 0), (-1, 0), (0, 1), (0, -1)]"

text \<open>
  The body of the \<open>for\<close> loop over the four moves, with the short-circuit order of the
  condition: bounds first, then \<open>visited\<close>, then the map.
\<close>

definition visit_neighbour ::
  "grid \<Rightarrow> int \<Rightarrow> int \<Rightarrow> bool list list \<Rightarrow> Node \<Rightarrow> Node list \<Rightarrow> int \<times> int \<Rightarrow> fault + Node list"
where
  "visit_neighbour m destX destY visited current pq d =
     (let newX = node_x current + fst d; newY = node_y current + snd d in
      if isValid newX newY (grid_rows m) (grid_cols m) then
        (case at2 visited newX newY of
           None \<Rightarrow> Inl OutOfRange
         | Some seen \<Rightarrow>
             if \<not> seen then
               (case at2 m newX newY of
                  None \<Rightarrow> Inl OutOfRange
                | Some v \<Rightarrow>
                    if v \<noteq> 1 then
                      (let newG = node_g current + 1;
                           newH = heuristic newX newY destX destY
                       in Inr (pq_push (Node newX newY newG newH (Some current)) pq))
                    else Inr pq)
             else Inr pq)
      else Inr pq)"

fun neighbours_loop ::
  "grid \<Rightarrow> int \<Rightarrow> int \<Rightarrow> bool list list \<Rightarrow> Node \<Rightarrow> Node list \<Rightarrow> (int \<times> int) list \<Rightarrow> fault + Node list"
where
  "neighbours_loop m destX destY visited current pq [] = Inr pq"
| "neighbours_loop m destX destY visited current pq (d # ds) =
     (case visit_neighbour m destX destY visited current pq d of
        Inl e \<Rightarrow> Inl e
      | Inr pq' \<Rightarrow> neighbours_loop m destX destY visited current pq' ds)"

text \<open>\<open>visited[x][y] = true\<close>\<close>

definition mark :: "bool list list \<Rightarrow> int \<Rightarrow> int \<Rightarrow> fault + bool list list" where
  "mark visited i j =
     (case at2 visited i j of
        None \<Rightarrow> Inl OutOfRange
      | Some _ \<Rightarrow> Inr (visited[nat i := (visited ! nat i)[nat j := True]]))"

text \<open>
  One turn of the \<open>while\<close> loop on a non-empty queue: either the function returns
  (\<open>Done\<close>), or the loop goes on with a new \<open>visited\<close> and a new queue.
\<close>

datatype outcome = Done "fault + path" | Next "bool list list" "Node list"

definition astar_step ::
  "nat \<Rightarrow> grid \<Rightarrow> int \<Rightarrow> int \<Rightarrow> bool list list \<Rightarrow> Node list \<Rightarrow> outcome"
where
  "astar_step c m destX destY visited pq =
     (let current = pq_top c pq; pq1 = pq_pop c pq in
      if node_x current = destX \<and> node_y current = destY then
        Done (Inr (rev (chain current)))
      else
        (case mark visited (node_x current) (node_y current) of
           Inl e \<Rightarrow> Done (Inl e)
         | Inr visited' \<Rightarrow>
             (case neighbours_loop m destX destY visited' current pq1 moves of
                Inl e \<Rightarrow> Done (Inl e)
              | Inr pq2 \<Rightarrow> Next visited' pq2)))"

text \<open>Termination measure of the loop.\<close>

definition unseen :: "bool list list \<Rightarrow> nat" where
  "unseen visited = sum_list (map (\<lambda>r. length (filter Not r)) visited)"

definition stale :: "bool list list \<Rightarrow> Node list \<Rightarrow> nat" where
  "stale visited pq =
     length (filter (\<lambda>n. at2 visited (node_x n) (node_y n) \<noteq> Some False) pq)"

text \<open>
  \<open>child\<close> is the node pushed for a move, \<open>pushable\<close> the condition of the \<open>if\<close> in
  the \<open>for\<close> loop when no access faults.
\<close>

definition child :: "int \<Rightarrow> int \<Rightarrow> Node \<Rightarrow> int \<times> int \<Rightarrow> Node" where
  "child destX destY current d =
     Node (node_x current + fst d) (node_y current + snd d) (node_g current + 1)
       (heuristic (node_x current + fst d) (node_y current + snd d) destX destY) (Some current)"

definition pushable :: "grid \<Rightarrow> bool list list \<Rightarrow> Node \<Rightarrow> int \<times> int \<Rightarrow> bool" where
  "pushable m visited current d =
     (isValid (node_x current + fst d) (node_y current + snd d) (grid_rows m) (grid_cols m) \<and>
      at2 visited (node_x current + fst d) (node_y current + snd d) = Some False \<and>
      (case at2 m (node_x current + fst d) (node_y current + snd d) of
         None \<Rightarrow> False | Some v \<Rightarrow> v \<noteq> 1))"

subsection \<open>Facts about the frontier\<close>

lemma pq_candidates_nonempty:
  assumes "pq \<noteq> []"
  shows "pq_candidates pq \<noteq> []"
proof -
  have "finite (node_f ` set pq)" "node_f ` set pq \<noteq> {}" using assms by auto
  then have "Min (node_f ` set pq) \<in> node_f ` set pq" by (rule Min_in)
  then obtain n where n: "n \<in> set pq" "node_f n = Min (node_f ` set pq)" by auto
  then obtain i where i: "i < length pq" "pq ! i = n" by (auto simp: in_set_conv_nth)
  have "pq_on_top pq i"
    unfolding pq_on_top_def list_all_iff using i n by (auto simp: not_less)
  then have "i \<in> set (pq_candidates pq)" using i by (simp add: pq_candidates_def)
  then show ?thesis by auto
qed

lemma pq_top_index_candidate:
  assumes "pq \<noteq> []"
  shows "pq_top_index c pq \<in> set (pq_candidates pq)"
  unfolding pq_top_index_def using pq_candidates_nonempty[OF assms] by simp

lemma pq_top_index_less: "pq \<noteq> [] \<Longrightarrow> pq_top_index c pq < length pq"
  using pq_top_index_candidate[of pq c] by (simp add: pq_candidates_def)

lemma pq_top_in: "pq \<noteq> [] \<Longrightarrow> pq_top c pq \<in> set pq"
  by (simp add: pq_top_def pq_top_index_less)

lemma pq_top_least: "pq \<noteq> [] \<Longrightarrow> n \<in> set pq \<Longrightarrow> node_f (pq_top c pq) \<le> node_f n"
  using pq_top_index_candidate[of pq c]
  by (auto simp: pq_candidates_def pq_on_top_def list_all_iff pq_top_def not_less)

lemma pq_pop_set: "pq \<noteq> [] \<Longrightarrow> set pq = insert (pq_top c pq) (set (pq_pop c pq))"
proof -
  assume "pq \<noteq> []"
  then have i: "pq_top_index c pq < length pq" by (rule pq_top_index_less)
  have "pq = take (pq_top_index c pq) pq @ pq ! pq_top_index c pq # drop (Suc (pq_top_index c pq)) pq"
    using i by (simp add: id_take_nth_drop[symmetric])
  then have "set pq = set (take (pq_top_index c pq) pq @ pq ! pq_top_index c pq # drop (Suc (pq_top_index c pq)) pq)"
    by simp
  then show ?thesis by (simp add: pq_pop_def pq_top_def)
qed

lemma pq_pop_filter_length:
  assumes "pq \<noteq> []"
  shows "length (filter P pq) = (if P (pq_top c pq) then 1 else 0) + length (filter P (pq_pop c pq))"
proof -
  have i: "pq_top_index c pq < length pq" using assms by (rule pq_top_index_less)
  have "pq = take (pq_top_index c pq) pq @ pq ! pq_top_index c pq # drop (Suc (pq_top_index c pq)) pq"
    using i by (simp add: id_take_nth_drop[symmetric])
  then have "filter P pq = filter P (take (pq_top_index c pq) pq @ pq ! pq_top_index c pq # drop (Suc (pq_top_index c pq)) pq)"
    by simp
  then show ?thesis by (simp add: pq_pop_def pq_top_def)
qed

subsection \<open>What one turn of the loop pushes, and why the loop ends\<close>

lemma visit_neighbour_Inr:
  "visit_neighbour m destX destY visited current pq d = Inr pq' \<Longrightarrow>
   pq' = pq @ map (child destX destY current) (filter (pushable m visited current) [d])"
  by (auto simp: visit_neighbour_def pushable_def child_def pq_push_def Let_def
      split: if_splits option.splits)

lemma neighbours_loop_Inr:
  "neighbours_loop m destX destY visited current pq ds = Inr pq' \<Longrightarrow>
   pq' = pq @ map (child destX destY current) (filter (pushable m visited current) ds)"
proof (induction ds arbitrary: pq)
  case Nil
  then show ?case by simp
next
  case (Cons d ds)
  from Cons.prems obtain pq1 where
    1: "visit_neighbour m destX destY visited current pq d = Inr pq1" and
    2: "neighbours_loop m destX destY visited current pq1 ds = Inr pq'"
    by (auto split: sum.splits)
  from visit_neighbour_Inr[OF 1] Cons.IH[OF 2] show ?case by auto
qed

lemma filter_Not_update:
  "j < length r \<Longrightarrow> \<not> r ! j \<Longrightarrow> Suc (length (filter Not (r[j := True]))) = length (filter Not r)"
proof (induction r arbitrary: j)
  case Nil
  then show ?case by simp
next
  case (Cons a r)
  then show ?case by (cases j) auto
qed

lemma unseen_update:
  assumes "i < length v" "j < length (v ! i)" "\<not> v ! i ! j"
  shows "Suc (unseen (v[i := (v ! i)[j := True]])) = unseen v"
  using assms
proof (induction v arbitrary: i)
  case Nil
  then show ?case by simp
next
  case (Cons r v)
  show ?case
  proof (cases i)
    case 0
    with Cons.prems filter_Not_update[of j r] show ?thesis by (simp add: unseen_def)
  next
    case (Suc k)
    with Cons.prems Cons.IH[of k] show ?thesis by (simp add: unseen_def)
  qed
qed

lemma mark_unseen:
  "mark visited i j = Inr visited' \<Longrightarrow> at2 visited i j = Some False \<Longrightarrow>
   Suc (unseen visited') = unseen visited"
  using unseen_update[of "nat i" visited "nat j"]
  by (auto simp: mark_def at2_def split: if_splits option.splits)

lemma mark_seen:
  assumes "mark visited i j = Inr visited'" "at2 visited i j = Some True"
  shows "visited' = visited"
proof -
  from assms(2) have r: "0 \<le> i" "i < int (length visited)" "0 \<le> j"
    "j < int (length (visited ! nat i))" "visited ! nat i ! nat j = True"
    by (auto simp: at2_def split: if_splits)
  have "(visited ! nat i)[nat j := True] = visited ! nat i"
    using r(5) list_update_id[of "visited ! nat i" "nat j"] by simp
  then have "visited[nat i := (visited ! nat i)[nat j := True]] = visited"
    by simp
  with assms show ?thesis by (simp add: mark_def)
qed

lemma mark_Inr_at2: "mark visited i j = Inr visited' \<Longrightarrow> \<exists>b. at2 visited i j = Some b"
  by (auto simp: mark_def split: option.splits)

lemma stale_append_pushable:
  "stale visited (pq @ map (child destX destY current) (filter (pushable m visited current) ds))
   = stale visited pq"
  by (simp add: stale_def pushable_def child_def filter_empty_conv)

lemma astar_step_decreases:
  assumes "pq \<noteq> []" "astar_step c m destX destY visited pq = Next visited' pq'"
  shows "unseen visited' < unseen visited \<or>
         unseen visited' = unseen visited \<and> stale visited' pq' < stale visited pq"
proof -
  let ?cur = "pq_top c pq"
  from assms(2) obtain
    mk: "mark visited (node_x ?cur) (node_y ?cur) = Inr visited'" and
    nl: "neighbours_loop m destX destY visited' ?cur (pq_pop c pq) moves = Inr pq'"
    by (auto simp: astar_step_def Let_def split: if_splits sum.splits)
  from mark_Inr_at2[OF mk] obtain b where b: "at2 visited (node_x ?cur) (node_y ?cur) = Some b"
    by blast
  show ?thesis
  proof (cases b)
    case False
    with mark_unseen[OF mk] b show ?thesis by simp
  next
    case True
    with mark_seen[OF mk] b have eq: "visited' = visited" by simp
    have "stale visited pq' = stale visited (pq_pop c pq)"
      using neighbours_loop_Inr[OF nl] eq stale_append_pushable by simp
    moreover have "stale visited pq = Suc (stale visited (pq_pop c pq))"
      unfolding stale_def using pq_pop_filter_length[OF assms(1), of _ c] b True by simp
    ultimately show ?thesis using eq by simp
  qed
qed

subsection \<open>The loop and the function\<close>

text \<open>
  \<open>tie\<close> gives, for each turn of the loop, the number that picks the top among nodes of
  equal least \<open>f\<close>. An empty map makes \<open>map[0]\<close> an access outside the vector.
\<close>

function aStar_loop ::
  "(nat \<Rightarrow> nat) \<Rightarrow> grid \<Rightarrow> int \<Rightarrow> int \<Rightarrow> bool list list \<Rightarrow> Node list \<Rightarrow> fault + path"
where
  "aStar_loop tie m destX destY visited pq =
     (if pq = [] then Inr []
      else
        (case astar_step (tie 0) m destX destY visited pq of
           Done r \<Rightarrow> r
         | Next visited' pq' \<Rightarrow> aStar_loop (\<lambda>k. tie (Suc k)) m destX destY visited' pq'))"
  by pat_completeness auto
termination
  apply (relation "measures [\<lambda>(tie, m, destX, destY, visited, pq). unseen visited,
                           \<lambda>(tie, m, destX, destY, visited, pq). stale visited pq]")
   apply simp
  subgoal for tie m destX destY visited pq visited' pq'
    using astar_step_decreases[of pq "tie 0" m destX destY visited visited' pq'] by auto
  done

declare aStar_loop.simps [simp del]

definition aStar :: "(nat \<Rightarrow> nat) \<Rightarrow> grid \<Rightarrow> int \<Rightarrow> int \<Rightarrow> int \<Rightarrow> int \<Rightarrow> fault + path" where
  "aStar tie m startX startY destX destY =
     (if m = [] then Inl OutOfRange
      else
        aStar_loop tie m destX destY
          (replicate (length m) (replicate (length (m ! 0)) False))
          [Node startX startY 0 (heuristic startX startY destX destY) None])"

section \<open>main: pigeonhole bucketing and the chained searches\<close>

text \<open>
  \<open>buckets[priority].push_back(destination)\<close> on the vector of four buckets; a priority
  that is no index of the vector is an access outside it.
\<close>

definition bucket_push :: "cell list list \<Rightarrow> cell \<times> int \<Rightarrow> fault + cell list list" where
  "bucket_push buckets dp =
     (let destination = fst dp; priority = snd dp in
      if 0 \<le> priority \<and> priority < int (length buckets)
      then Inr (buckets[nat priority := buckets ! nat priority @ [destination]])
      else Inl OutOfRange)"

fun fill_buckets :: "cell list list \<Rightarrow> (cell \<times> int) list \<Rightarrow> fault + cell list list" where
  "fill_buckets buckets [] = Inr buckets"
| "fill_buckets buckets (dp # rest) =
     (case bucket_push buckets dp of
        Inl e \<Rightarrow> Inl e
      | Inr buckets' \<Rightarrow> fill_buckets buckets' rest)"

definition make_buckets :: "(cell \<times> int) list \<Rightarrow> fault + cell list list" where
  "make_buckets destinationsAndPriorities =
     fill_buckets (replicate 4 []) destinationsAndPriorities"

text \<open>The lines printed under "Sorted Addresses:", as (destination, priority) pairs.\<close>

definition sorted_addresses :: "cell list list \<Rightarrow> (cell \<times> int) list" where
  "sorted_addresses buckets =
     concat (map (\<lambda>priority. map (\<lambda>destination. (destination, int priority)) (buckets ! priority))
       [1..<4])"

text \<open>
  One call of aStar from main, as the run reports it: the start the search was called
  with, the destination and its priority, and the path returned (empty for
  "Cannot find a path").
\<close>

record leg =
  leg_start :: cell
  leg_dest :: cell
  leg_priority :: int
  leg_path :: path

record planner =
  startX :: int
  startY :: int
  report :: "leg list"

text \<open>
  The body of the inner loop. \<open>ties k\<close> is the tie-breaking of the queue in the \<open>k\<close>-th
  call of aStar.
\<close>

definition attempt ::
  "(nat \<Rightarrow> nat \<Rightarrow> nat) \<Rightarrow> grid \<Rightarrow> int \<Rightarrow> planner \<Rightarrow> cell \<Rightarrow> fault + planner"
where
  "attempt ties m priority s destination =
     (let destX = fst destination; destY = snd destination in
      case aStar (ties (length (report s))) m (startX s) (startY s) destX destY of
        Inl e \<Rightarrow> Inl e
      | Inr path \<Rightarrow>
          (let l = \<lparr>leg_start = (startX s, startY s), leg_dest = destination,
                    leg_priority = priority, leg_path = path\<rparr>
           in if path = [] then Inr (s\<lparr>report := report s @ [l]\<rparr>)
              else Inr (s\<lparr>startX := destX, startY := destY, report := report s @ [l]\<rparr>)))"

fun bucket_loop ::
  "(nat \<Rightarrow> nat \<Rightarrow> nat) \<Rightarrow> grid \<Rightarrow> int \<Rightarrow> planner \<Rightarrow> cell list \<Rightarrow> fault + planner"
where
  "bucket_loop ties m priority s [] = Inr s"
| "bucket_loop ties m priority s (destination # rest) =
     (case attempt ties m priority s destination of
        Inl e \<Rightarrow> Inl e
      | Inr s' \<Rightarrow> bucket_loop ties m priority s' rest)"

fun priority_loop ::
  "(nat \<Rightarrow> nat \<Rightarrow> nat) \<Rightarrow> grid \<Rightarrow> cell list list \<Rightarrow> planner \<Rightarrow> nat list \<Rightarrow> fault + planner"
where
  "priority_loop ties m buckets s [] = Inr s"
| "priority_loop ties m buckets s (priority # rest) =
     (case bucket_loop ties m (int priority) s (buckets ! priority) of
        Inl e \<Rightarrow> Inl e
      | Inr s' \<Rightarrow> priority_loop ties m buckets s' rest)"

text \<open>
  The run of main on a loaded map, start cell and destination list: the sorted listing
  and the legs in the order they were attempted.
\<close>

definition run_main ::
  "(nat \<Rightarrow> nat \<Rightarrow> nat) \<Rightarrow> grid \<Rightarrow> cell \<Rightarrow> (cell \<times> int) list
   \<Rightarrow> fault + ((cell \<times> int) list \<times> leg list)"
where
  "run_main ties m start destinationsAndPriorities =
     (case make_buckets destinationsAndPriorities of
        Inl e \<Rightarrow> Inl e
      | Inr buckets \<Rightarrow>
          (case priority_loop ties m buckets
                  \<lparr>startX = fst start, startY = snd start, report = []\<rparr> [1..<4] of
             Inl e \<Rightarrow> Inl e
           | Inr s \<Rightarrow> Inr (sorted_addresses buckets, report s)))"

section \<open>Specification vocabulary\<close>

definition in_grid :: "grid \<Rightarrow> cell \<Rightarrow> bool" where
  "in_grid m c = isValid (fst c) (snd c) (grid_rows m) (grid_cols m)"

text \<open>A cell is passable when it is inside the grid and its value is not the obstacle 1.\<close>

definition passable :: "grid \<Rightarrow> cell \<Rightarrow> bool" where
  "passable m c =
     (in_grid m c \<and> (case at2 m (fst c) (snd c) of None \<Rightarrow> False | Some v \<Rightarrow> v \<noteq> 1))"

text \<open>Two cells are 4-adjacent: one step in exactly one axis.\<close>

definition adjacent4 :: "cell \<Rightarrow> cell \<Rightarrow> bool" where
  "adjacent4 a b = (\<bar>fst a - fst b\<bar> + \<bar>snd a - snd b\<bar> = 1)"

text \<open>The grid as main loads it: at least one row, all rows as long as the first.\<close>

definition rectangular :: "grid \<Rightarrow> bool" where
  "rectangular m = (m \<noteq> [] \<and> list_all (\<lambda>r. length r = length (m ! 0)) m)"

text \<open>
  An obstacle-avoiding path from \<open>s\<close> to \<open>t\<close>: a non-empty sequence of passable cells,
  consecutive ones 4-adjacent, that starts at \<open>s\<close> and ends at \<open>t\<close>.
\<close>

definition free_path :: "grid \<Rightarrow> cell \<Rightarrow> cell \<Rightarrow> path \<Rightarrow> bool" where
  "free_path m s t p =
     (p \<noteq> [] \<and> hd p = s \<and> last p = t \<and> successively adjacent4 p \<and> list_all (passable m) p)"

text \<open>
  What the search explores: as \<open>free_path\<close>, but the first cell is not asked to be
  passable (the search never looks its start up in the map).
\<close>

definition route :: "grid \<Rightarrow> cell \<Rightarrow> path \<Rightarrow> bool" where
  "route m s p =
     (p \<noteq> [] \<and> hd p = s \<and> successively adjacent4 p \<and> list_all (passable m) (tl p))"

definition shortest_free_path :: "grid \<Rightarrow> cell \<Rightarrow> cell \<Rightarrow> path \<Rightarrow> bool" where
  "shortest_free_path m s t p =
     (free_path m s t p \<and> (\<forall>q. free_path m s t q \<longrightarrow> length p \<le> length q))"

text \<open>
  The state of the search loop after \<open>k\<close> turns (or the result, if the function has
  returned by then).
\<close>

fun astar_turns ::
  "nat \<Rightarrow> (nat \<Rightarrow> nat) \<Rightarrow> grid \<Rightarrow> int \<Rightarrow> int \<Rightarrow> bool list list \<Rightarrow> Node list \<Rightarrow> outcome"
where
  "astar_turns 0 tie m destX destY visited pq = Next visited pq"
| "astar_turns (Suc k) tie m destX destY visited pq =
     (if pq = [] then Done (Inr [])
      else
        (case astar_step (tie 0) m destX destY visited pq of
           Done r \<Rightarrow> Done r
         | Next visited' pq' \<Rightarrow> astar_turns k (\<lambda>i. tie (Suc i)) m destX destY visited' pq'))"

subsection \<open>Vocabulary of the proofs\<close>

text \<open>A cell is marked in \<open>visited\<close>; \<open>visited\<close> has the extent of the map; \<open>visited\<close> after
  marking a cell.\<close>

definition seen :: "bool list list \<Rightarrow> cell \<Rightarrow> bool" where
  "seen visited c = (at2 visited (fst c) (snd c) = Some True)"

definition same_shape :: "grid \<Rightarrow> bool list list \<Rightarrow> bool" where
  "same_shape m visited =
     (length visited = length m \<and> list_all (\<lambda>r. length r = length (m ! 0)) visited)"

definition marked :: "bool list list \<Rightarrow> cell \<Rightarrow> bool list list" where
  "marked visited c = visited[nat (fst c) := (visited ! nat (fst c))[nat (snd c) := True]]"

text \<open>
  For a start \<open>s\<close> and a target \<open>t\<close>: \<open>visited\<close> has the extent of the map; every
  queued node carries the route it was reached by, its length as \<open>g\<close> and the
  heuristic of its cell as \<open>h\<close>; the start is visited or queued; every unvisited
  passable neighbour of a visited cell is queued with a \<open>g\<close> no larger than any route
  through that cell gives; the target is never marked.
\<close>

definition node_ok :: "grid \<Rightarrow> cell \<Rightarrow> cell \<Rightarrow> Node \<Rightarrow> bool" where
  "node_ok m s t n =
     (route m s (rev (chain n)) \<and> node_g n + 1 = int (length (chain n)) \<and>
      node_h n = heuristic (node_x n) (node_y n) (fst t) (snd t) \<and> in_grid m (node_cell n))"

definition start_covered :: "cell \<Rightarrow> bool list list \<Rightarrow> Node list \<Rightarrow> bool" where
  "start_covered s visited pq =
     (seen visited s \<or> (\<exists>u\<in>set pq. node_cell u = s \<and> node_g u \<le> 0))"

definition border_covered :: "grid \<Rightarrow> cell \<Rightarrow> bool list list \<Rightarrow> Node list \<Rightarrow> bool" where
  "border_covered m s visited pq =
     (\<forall>q x. route m s q \<and> seen visited (last q) \<and> passable m x \<and> adjacent4 (last q) x \<and>
            \<not> seen visited x
        \<longrightarrow> (\<exists>u\<in>set pq. node_cell u = x \<and> node_g u \<le> int (length q)))"

definition search_inv :: "grid \<Rightarrow> cell \<Rightarrow> cell \<Rightarrow> bool list list \<Rightarrow> Node list \<Rightarrow> bool" where
  "search_inv m s t visited pq =
     (same_shape m visited \<and> list_all (node_ok m s t) pq \<and> start_covered s visited pq \<and>
      border_covered m s visited pq \<and> \<not> seen visited t)"

text \<open>
  No route from \<open>s\<close> ends at \<open>t\<close>; and a route from \<open>s\<close> to \<open>t\<close> that is no longer than
  any other.
\<close>

definition no_route :: "grid \<Rightarrow> cell \<Rightarrow> cell \<Rightarrow> bool" where
  "no_route m s t = (\<forall>q. route m s q \<longrightarrow> last q \<noteq> t)"

definition best_route :: "grid \<Rightarrow> cell \<Rightarrow> cell \<Rightarrow> path \<Rightarrow> bool" where
  "best_route m s t p =
     (route m s p \<and> last p = t \<and> (\<forall>q. route m s q \<and> last q = t \<longrightarrow> length p \<le> length q))"

text \<open>Every priority is an index of the vector of four buckets.\<close>

definition valid_priorities :: "(cell \<times> int) list \<Rightarrow> bool" where
  "valid_priorities dps = list_all (\<lambda>dp. 0 \<le> snd dp \<and> snd dp \<le> 3) dps"

text \<open>The destinations of one priority, in their input order.\<close>

definition tier :: "int \<Rightarrow> (cell \<times> int) list \<Rightarrow> (cell \<times> int) list" where
  "tier p dps = filter (\<lambda>dp. snd dp = p) dps"

text \<open>What a line of the run report says of a leg: the destination and its priority.\<close>

definition leg_entry :: "leg \<Rightarrow> cell \<times> int" where
  "leg_entry l = (leg_dest l, leg_priority l)"

text \<open>
  Origin chaining of a run whose first search starts at \<open>origin\<close> (and is the \<open>k\<close>-th
  call): each leg records the search from the current origin to its destination, and
  the next origin is that destination when the path is non-empty, the same origin
  when it is empty.
\<close>

fun chained :: "(nat \<Rightarrow> nat \<Rightarrow> nat) \<Rightarrow> grid \<Rightarrow> nat \<Rightarrow> cell \<Rightarrow> leg list \<Rightarrow> bool" where
  "chained ties m k origin [] = True"
| "chained ties m k origin (l # ls) =
     (leg_start l = origin \<and>
      aStar (ties k) m (fst origin) (snd origin) (fst (leg_dest l)) (snd (leg_dest l))
        = Inr (leg_path l) \<and>
      chained ties m (Suc k) (if leg_path l = [] then origin else leg_dest l) ls)"

text \<open>Where the agent stands after a list of legs.\<close>

fun final_origin :: "cell \<Rightarrow> leg list \<Rightarrow> cell" where
  "final_origin origin [] = origin"
| "final_origin origin (l # ls) =
     final_origin (if leg_path l = [] then origin else leg_dest l) ls"

text \<open>
  What holds between two attempts: the current start is inside the grid, the legs so
  far are chained from the first origin, and the current start is where they end.
\<close>

definition plan_inv :: "(nat \<Rightarrow> nat \<Rightarrow> nat) \<Rightarrow> grid \<Rightarrow> cell \<Rightarrow> planner \<Rightarrow> bool" where
  "plan_inv ties m origin s =
     (in_grid m (startX s, startY s) \<and> chained ties m 0 origin (report s) \<and>
      (startX s, startY s) = final_origin origin (report s))"

section \<open>Shapes, marking and the moves\<close>

lemma at2_Some:
  "0 \<le> i \<Longrightarrow> 0 \<le> j \<Longrightarrow> nat i < length v \<Longrightarrow> nat j < length (v ! nat i) \<Longrightarrow>
   at2 v i j = Some (v ! nat i ! nat j)"
  unfolding at2_def by (simp add: nat_less_iff)

lemma rectangular_row:
  assumes "rectangular m" "k < length m"
  shows "length (m ! k) = length (m ! 0)"
proof -
  from assms(1) have "list_all (\<lambda>r. length r = length (m ! 0)) m"
    unfolding rectangular_def by (rule conjunct2)
  then have "\<forall>n<length m. length (m ! n) = length (m ! 0)"
    unfolding list_all_length .
  with assms(2) show ?thesis by blast
qed

lemma same_shape_row:
  assumes "same_shape m visited" "k < length m"
  shows "length (visited ! k) = length (m ! 0)"
proof -
  from assms(1) have "length visited = length m"
    and "list_all (\<lambda>r. length r = length (m ! 0)) visited"
    unfolding same_shape_def by blast+
  then have "\<forall>n<length m. length (visited ! n) = length (m ! 0)"
    unfolding list_all_length by simp
  with assms(2) show ?thesis by blast
qed

lemma in_grid_nat:
  assumes "in_grid m c"
  shows "0 \<le> fst c" "0 \<le> snd c" "nat (fst c) < length m" "nat (snd c) < length (m ! 0)"
  using assms unfolding in_grid_def isValid_def grid_rows_def grid_cols_def by linarith+

lemma in_grid_at2_map:
  assumes "rectangular m" "in_grid m c"
  shows "at2 m (fst c) (snd c) = Some (m ! nat (fst c) ! nat (snd c))"
proof -
  note g = in_grid_nat[OF assms(2)]
  from rectangular_row[OF assms(1) g(3)] g(4)
  have "nat (snd c) < length (m ! nat (fst c))" by simp
  with g show ?thesis by (intro at2_Some)
qed

lemma in_grid_at2_visited:
  assumes "same_shape m visited" "in_grid m c"
  shows "at2 visited (fst c) (snd c) = Some (visited ! nat (fst c) ! nat (snd c))"
proof -
  note g = in_grid_nat[OF assms(2)]
  from assms(1) have l: "length visited = length m" unfolding same_shape_def by blast
  from same_shape_row[OF assms(1) g(3)] g(4)
  have "nat (snd c) < length (visited ! nat (fst c))" by simp
  with g l show ?thesis by (intro at2_Some) simp_all
qed

lemma at2_marked:
  assumes "at2 visited (fst c) (snd c) = Some b"
  shows "at2 (marked visited c) i j = (if (i, j) = c then Some True else at2 visited i j)"
proof -
  from assms have r: "0 \<le> fst c" "fst c < int (length visited)" "0 \<le> snd c"
    "snd c < int (length (visited ! nat (fst c)))"
    by (auto simp: at2_def split: if_splits)
  show ?thesis
  proof (cases "i = fst c")
    case True
    show ?thesis
    proof (cases "j = snd c")
      case True
      with \<open>i = fst c\<close> r show ?thesis by (simp add: at2_def marked_def)
    next
      case False
      then have "(i, j) \<noteq> c" by auto
      moreover have "0 \<le> j \<Longrightarrow> nat j \<noteq> nat (snd c)" using False r by auto
      ultimately show ?thesis using \<open>i = fst c\<close> r by (auto simp: at2_def marked_def)
    qed
  next
    case False
    then have "(i, j) \<noteq> c" by auto
    moreover have "0 \<le> i \<Longrightarrow> nat i \<noteq> nat (fst c)" using False r by auto
    ultimately show ?thesis using r by (auto simp: at2_def marked_def)
  qed
qed

lemma seen_marked:
  "at2 visited (fst c) (snd c) = Some b \<Longrightarrow> seen (marked visited c) a = (a = c \<or> seen visited a)"
  by (cases a) (auto simp: seen_def at2_marked)

lemma row_length_update:
  "\<forall>n<length v. length (v ! n) = k \<Longrightarrow> n < length v \<Longrightarrow>
   length (v[i := (v ! i)[j := True]] ! n) = k"
  by (cases "i < length v") (auto simp: nth_list_update)

lemma same_shape_marked: "same_shape m visited \<Longrightarrow> same_shape m (marked visited c)"
  by (simp add: same_shape_def marked_def list_all_length row_length_update)

lemma mark_marked:
  "at2 visited i j = Some b \<Longrightarrow> mark visited i j = Inr (marked visited (i, j))"
  by (simp add: mark_def marked_def)

lemma heuristic_step:
  "adjacent4 a b \<Longrightarrow> heuristic (fst a) (snd a) tx ty \<le> 1 + heuristic (fst b) (snd b) tx ty"
  by (simp add: adjacent4_def heuristic_def)

lemma abs_sum_one:
  "\<bar>a::int\<bar> + \<bar>b\<bar> = 1 \<Longrightarrow>
   a = 1 \<and> b = 0 \<or> a = - 1 \<and> b = 0 \<or> a = 0 \<and> b = 1 \<or> a = 0 \<and> b = - 1"
  by (auto simp: abs_if split: if_splits)

lemma adjacent4_moves:
  "adjacent4 (x, y) c \<longleftrightarrow> (\<exists>d\<in>set moves. c = (x + fst d, y + snd d))"
proof
  assume "adjacent4 (x, y) c"
  then have "\<bar>fst c - x\<bar> + \<bar>snd c - y\<bar> = 1" by (simp add: adjacent4_def abs_minus_commute)
  from abs_sum_one[OF this]
  have "fst c = x + 1 \<and> snd c = y \<or> fst c = x - 1 \<and> snd c = y \<or>
        fst c = x \<and> snd c = y + 1 \<or> fst c = x \<and> snd c = y - 1"
    by auto
  then show "\<exists>d\<in>set moves. c = (x + fst d, y + snd d)"
    by (cases c) (auto simp: moves_def)
next
  assume "\<exists>d\<in>set moves. c = (x + fst d, y + snd d)"
  then show "adjacent4 (x, y) c" by (auto simp: moves_def adjacent4_def)
qed

lemma chain_nonempty: "chain n \<noteq> []"
  by (cases n) simp

lemma hd_chain: "hd (chain n) = node_cell n"
  by (cases n) (simp add: node_cell_def)

lemma chain_child: "chain (child destX destY current d)
   = (node_x current + fst d, node_y current + snd d) # chain current"
  by (simp add: child_def)

lemma route_single: "route m s [c] \<longleftrightarrow> c = s"
  by (auto simp: route_def)

lemma route_snoc:
  "q \<noteq> [] \<Longrightarrow> route m s (q @ [x]) \<longleftrightarrow> route m s q \<and> adjacent4 (last q) x \<and> passable m x"
  by (auto simp: route_def successively_append_iff)

lemma visit_neighbour_total:
  assumes "rectangular m" "same_shape m visited"
  shows "visit_neighbour m destX destY visited current pq d
         = Inr (pq @ map (child destX destY current) (filter (pushable m visited current) [d]))"
proof -
  let ?c = "(node_x current + fst d, node_y current + snd d)"
  show ?thesis
  proof (cases "in_grid m ?c")
    case False
    then show ?thesis
      by (simp add: visit_neighbour_def pushable_def in_grid_def Let_def)
  next
    case True
    from in_grid_at2_map[OF assms(1) True] in_grid_at2_visited[OF assms(2) True]
    obtain v b where "at2 m (fst ?c) (snd ?c) = Some v" "at2 visited (fst ?c) (snd ?c) = Some b"
      by blast
    with True show ?thesis
      by (simp add: visit_neighbour_def pushable_def in_grid_def Let_def child_def pq_push_def)
  qed
qed

lemma neighbours_loop_total:
  assumes "rectangular m" "same_shape m visited"
  shows "neighbours_loop m destX destY visited current pq ds
         = Inr (pq @ map (child destX destY current) (filter (pushable m visited current) ds))"
proof (induction ds arbitrary: pq)
  case Nil
  show ?case by simp
next
  case (Cons d ds)
  show ?case
    by (simp add: visit_neighbour_total[OF assms] Cons.IH)
qed

lemma astar_step_total:
  assumes "rectangular m" "same_shape m visited" "in_grid m (node_cell (pq_top c pq))"
  shows "astar_step c m destX destY visited pq =
     (if node_cell (pq_top c pq) = (destX, destY) then Done (Inr (rev (chain (pq_top c pq))))
      else Next (marked visited (node_cell (pq_top c pq)))
             (pq_pop c pq @ map (child destX destY (pq_top c pq))
                (filter (pushable m (marked visited (node_cell (pq_top c pq))) (pq_top c pq)) moves)))"
proof -
  let ?cur = "pq_top c pq"
  from in_grid_at2_visited[OF assms(2,3)] obtain b where
    b: "at2 visited (node_x ?cur) (node_y ?cur) = Some b" by (auto simp: node_cell_def)
  have sh: "same_shape m (marked visited (node_cell ?cur))"
    using assms(2) by (rule same_shape_marked)
  show ?thesis
    unfolding astar_step_def Let_def
    using mark_marked[OF b] neighbours_loop_total[OF assms(1) sh]
    by (simp add: node_cell_def)
qed

section \<open>The invariant of the search loop\<close>

lemma node_ok_f:
  "node_ok m s t n \<Longrightarrow>
   node_f n = int (length (chain n)) - 1 + heuristic (fst (node_cell n)) (snd (node_cell n)) (fst t) (snd t)"
  by (simp add: node_ok_def node_f_def node_cell_def)

text \<open>Some queued node is at least as good as any route to a cell not yet visited.\<close>

lemma frontier_bound:
  assumes inv: "search_inv m s t visited pq"
  shows "route m s q \<Longrightarrow> \<not> seen visited (last q) \<Longrightarrow>
         \<exists>u\<in>set pq. node_f u \<le> int (length q) - 1 + heuristic (fst (last q)) (snd (last q)) (fst t) (snd t)"
proof (induction q rule: rev_induct)
  case Nil
  then show ?case by (simp add: route_def)
next
  case (snoc x q)
  from inv have ok: "\<And>n. n \<in> set pq \<Longrightarrow> node_ok m s t n"
    and sc: "start_covered s visited pq" and bc: "border_covered m s visited pq"
    by (auto simp: search_inv_def list_all_iff)
  show ?case
  proof (cases "q = []")
    case True
    with snoc.prems have "x = s" "\<not> seen visited s" by (simp_all add: route_single)
    with sc obtain u where u: "u \<in> set pq" "node_cell u = s" "node_g u \<le> 0"
      by (auto simp: start_covered_def)
    from ok[OF u(1)] have "node_h u = heuristic (fst s) (snd s) (fst t) (snd t)"
      using u(2) by (auto simp: node_ok_def node_cell_def)
    with u True \<open>x = s\<close> show ?thesis by (auto simp: node_f_def intro!: bexI[of _ u])
  next
    case False
    with snoc.prems have r: "route m s q" "adjacent4 (last q) x" "passable m x" "\<not> seen visited x"
      by (simp_all add: route_snoc)
    show ?thesis
    proof (cases "seen visited (last q)")
      case True
      with bc r obtain u where u: "u \<in> set pq" "node_cell u = x" "node_g u \<le> int (length q)"
        unfolding border_covered_def by blast
      from ok[OF u(1)] have "node_h u = heuristic (fst x) (snd x) (fst t) (snd t)"
        using u(2) by (auto simp: node_ok_def node_cell_def)
      with u show ?thesis by (auto simp: node_f_def intro!: bexI[of _ u])
    next
      case False
      from snoc.IH[OF r(1) False] obtain u where u: "u \<in> set pq"
        "node_f u \<le> int (length q) - 1 + heuristic (fst (last q)) (snd (last q)) (fst t) (snd t)"
        by blast
      with heuristic_step[OF r(2), of "fst t" "snd t"] show ?thesis
        by (auto intro!: bexI[of _ u])
    qed
  qed
qed

text \<open>The node on top at a cell not yet visited has the least possible \<open>g\<close>.\<close>

lemma top_g_least:
  assumes inv: "search_inv m s t visited pq" and ne: "pq \<noteq> []"
    and q: "route m s q" "last q = node_cell (pq_top c pq)"
    and un: "\<not> seen visited (node_cell (pq_top c pq))"
  shows "node_g (pq_top c pq) + 1 \<le> int (length q)"
proof -
  let ?cur = "pq_top c pq"
  from frontier_bound[OF inv q(1)] un q(2) obtain u where u: "u \<in> set pq"
    "node_f u \<le> int (length q) - 1 + heuristic (fst (last q)) (snd (last q)) (fst t) (snd t)"
    by auto
  from inv pq_top_in[OF ne, of c] have "node_ok m s t ?cur"
    by (auto simp: search_inv_def list_all_iff)
  then have "node_f ?cur = node_g ?cur + heuristic (fst (last q)) (snd (last q)) (fst t) (snd t)"
    using q(2) by (simp add: node_ok_def node_f_def node_cell_def)
  with pq_top_least[OF ne u(1), of c] u(2) show ?thesis by simp
qed

lemma child_cell:
  "node_cell (child destX destY current d) = (node_x current + fst d, node_y current + snd d)"
  by (simp add: child_def node_cell_def)

lemma pushable_passable:
  "pushable m visited current d \<Longrightarrow> passable m (node_x current + fst d, node_y current + snd d)"
  by (simp add: pushable_def passable_def in_grid_def)

lemma child_ok:
  assumes "node_ok m s t current" "pushable m visited current d" "d \<in> set moves"
  shows "node_ok m s t (child (fst t) (snd t) current d)"
proof -
  let ?x = "(node_x current + fst d, node_y current + snd d)"
  let ?q = "rev (chain current)"
  have ne: "?q \<noteq> []" by (simp add: chain_nonempty)
  have "last ?q = node_cell current" by (simp add: last_rev hd_chain)
  moreover have "adjacent4 (node_x current, node_y current) ?x"
    using assms(3) adjacent4_moves by blast
  ultimately have adj: "adjacent4 (last ?q) ?x" by (simp add: node_cell_def)
  have pass: "passable m ?x" using assms(2) by (rule pushable_passable)
  from assms(1) have "route m s ?q" by (simp add: node_ok_def)
  with adj pass have "route m s (?q @ [?x])" using route_snoc[OF ne] by blast
  then have "route m s (rev (chain (child (fst t) (snd t) current d)))"
    by (simp add: chain_child)
  moreover have "node_g (child (fst t) (snd t) current d) + 1
                 = int (length (chain (child (fst t) (snd t) current d)))"
    using assms(1) by (simp add: chain_child) (simp add: child_def node_ok_def)
  moreover have "node_h (child (fst t) (snd t) current d)
     = heuristic (node_x (child (fst t) (snd t) current d)) (node_y (child (fst t) (snd t) current d))
         (fst t) (snd t)"
    by (simp add: child_def)
  moreover have "in_grid m (node_cell (child (fst t) (snd t) current d))"
    using pass by (simp add: child_cell passable_def)
  ultimately show ?thesis unfolding node_ok_def by blast
qed

lemma search_inv_step:
  assumes rect: "rectangular m" and inv: "search_inv m s t visited pq" and ne: "pq \<noteq> []"
    and nt: "node_cell (pq_top c pq) \<noteq> t"
  shows "search_inv m s t (marked visited (node_cell (pq_top c pq)))
           (pq_pop c pq @ map (child (fst t) (snd t) (pq_top c pq))
              (filter (pushable m (marked visited (node_cell (pq_top c pq))) (pq_top c pq)) moves))"
    (is "search_inv m s t ?vis' (?pq1 @ ?new)")
proof -
  let ?cur = "pq_top c pq"
  let ?w = "node_cell ?cur"
  from inv have shape: "same_shape m visited"
    and ok: "\<And>n. n \<in> set pq \<Longrightarrow> node_ok m s t n"
    and sc: "start_covered s visited pq" and bc: "border_covered m s visited pq"
    and ut: "\<not> seen visited t"
    by (auto simp: search_inv_def list_all_iff)
  have cur_in: "?cur \<in> set pq" using ne by (rule pq_top_in)
  have cur_ok: "node_ok m s t ?cur" using cur_in by (rule ok)
  then have w_in: "in_grid m ?w" by (simp add: node_ok_def)
  from in_grid_at2_visited[OF shape w_in] obtain b where
    b: "at2 visited (fst ?w) (snd ?w) = Some b" by blast
  note sm = seen_marked[OF b]
  have sets: "set pq = insert ?cur (set ?pq1)" using ne by (rule pq_pop_set)
  have keep: "u \<in> set ?pq1" if "u \<in> set pq" "node_cell u \<noteq> ?w" for u
    using that sets by auto
  have shape': "same_shape m ?vis'" using shape by (rule same_shape_marked)
  have "node_ok m s t n" if "n \<in> set (?pq1 @ ?new)" for n
  proof -
    from that consider "n \<in> set ?pq1" | "n \<in> set ?new" by auto
    then show ?thesis
    proof cases
      case 1
      with sets show ?thesis by (auto intro: ok)
    next
      case 2
      then obtain d where "d \<in> set moves" "pushable m ?vis' ?cur d"
        "n = child (fst t) (snd t) ?cur d" by auto
      with child_ok[OF cur_ok] show ?thesis by blast
    qed
  qed
  then have oks: "list_all (node_ok m s t) (?pq1 @ ?new)" unfolding list_all_iff by blast
  have sc': "start_covered s ?vis' (?pq1 @ ?new)"
  proof (cases "seen ?vis' s")
    case True
    then show ?thesis by (simp add: start_covered_def)
  next
    case False
    then have "s \<noteq> ?w" "\<not> seen visited s" by (auto simp: sm)
    with sc obtain u where u: "u \<in> set pq" "node_cell u = s" "node_g u \<le> 0"
      by (auto simp: start_covered_def)
    with keep[of u] \<open>s \<noteq> ?w\<close> have "u \<in> set (?pq1 @ ?new)" by auto
    with u show ?thesis unfolding start_covered_def by blast
  qed
  have bc': "border_covered m s ?vis' (?pq1 @ ?new)"
    unfolding border_covered_def
  proof (intro allI impI)
    fix q x
    assume a: "route m s q \<and> seen ?vis' (last q) \<and> passable m x \<and> adjacent4 (last q) x \<and>
               \<not> seen ?vis' x"
    then have q: "route m s q" and sv: "seen ?vis' (last q)" and px: "passable m x"
      and adj: "adjacent4 (last q) x" and ux': "\<not> seen ?vis' x" by blast+
    from ux' have xw: "x \<noteq> ?w" and ux: "\<not> seen visited x" by (auto simp: sm)
    show "\<exists>u\<in>set (?pq1 @ ?new). node_cell u = x \<and> node_g u \<le> int (length q)"
    proof (cases "seen visited (last q)")
      case True
      with bc q px adj ux obtain u where u: "u \<in> set pq" "node_cell u = x"
        "node_g u \<le> int (length q)"
        unfolding border_covered_def by blast
      with keep[of u] xw have "u \<in> set (?pq1 @ ?new)" by auto
      with u show ?thesis by blast
    next
      case False
      with sv have lw: "last q = ?w" by (auto simp: sm)
      with False have un: "\<not> seen visited ?w" by simp
      from top_g_least[OF inv ne q lw un] have g: "node_g ?cur + 1 \<le> int (length q)" .
      from adj lw have "adjacent4 (node_x ?cur, node_y ?cur) x" by (simp add: node_cell_def)
      then obtain d where d: "d \<in> set moves" "x = (node_x ?cur + fst d, node_y ?cur + snd d)"
        using adjacent4_moves by blast
      from px have xin: "in_grid m x" by (simp add: passable_def)
      from in_grid_at2_visited[OF shape' xin] ux'
      have "at2 ?vis' (fst x) (snd x) = Some False" by (auto simp: seen_def)
      with px d(2) have "pushable m ?vis' ?cur d"
        by (auto simp: pushable_def passable_def in_grid_def)
      with d(1) have "child (fst t) (snd t) ?cur d \<in> set (?pq1 @ ?new)" by simp
      moreover have "node_cell (child (fst t) (snd t) ?cur d) = x"
        using d(2) by (simp add: child_cell)
      moreover have "node_g (child (fst t) (snd t) ?cur d) \<le> int (length q)"
        using g by (simp add: child_def)
      ultimately show ?thesis by blast
    qed
  qed
  have "\<not> seen ?vis' t" using ut nt by (auto simp: sm)
  with shape' oks sc' bc' show ?thesis unfolding search_inv_def by blast
qed

section \<open>The result of the search\<close>

lemma aStar_loop_correct:
  "rectangular m \<Longrightarrow> search_inv m s (destX, destY) visited pq \<Longrightarrow>
   \<exists>p. aStar_loop tie m destX destY visited pq = Inr p \<and>
             (p = [] \<and> no_route m s (destX, destY) \<or> best_route m s (destX, destY) p)"
proof (induction tie m destX destY visited pq rule: aStar_loop.induct)
  case (1 tie m destX destY visited pq)
  note rect = "1.prems"(1) and inv = "1.prems"(2)
  let ?t = "(destX, destY)"
  show ?case
  proof (cases "pq = []")
    case True
    have "no_route m s ?t"
      unfolding no_route_def
    proof (intro allI impI notI)
      fix q assume q: "route m s q" "last q = ?t"
      from inv have "\<not> seen visited (last q)" using q(2) by (simp add: search_inv_def)
      from frontier_bound[OF inv q(1) this] True show False by simp
    qed
    with True show ?thesis by (subst aStar_loop.simps) simp
  next
    case False
    let ?cur = "pq_top (tie 0) pq"
    from inv have shape: "same_shape m visited" and ut: "\<not> seen visited ?t"
      by (simp_all add: search_inv_def)
    from inv pq_top_in[OF False, of "tie 0"] have cur_ok: "node_ok m s ?t ?cur"
      by (auto simp: search_inv_def list_all_iff)
    then have w_in: "in_grid m (node_cell ?cur)" by (simp add: node_ok_def)
    note step = astar_step_total[OF rect shape w_in, of destX destY]
    show ?thesis
    proof (cases "node_cell ?cur = ?t")
      case True
      let ?p = "rev (chain ?cur)"
      have res: "aStar_loop tie m destX destY visited pq = Inr ?p"
        using False True step by (subst aStar_loop.simps) simp
      have r: "route m s ?p" using cur_ok by (simp add: node_ok_def)
      have l: "last ?p = ?t" using True by (simp add: last_rev hd_chain)
      have "length ?p \<le> length q" if q: "route m s q \<and> last q = ?t" for q
      proof -
        from q True have lq: "last q = node_cell ?cur" by simp
        from ut True have un: "\<not> seen visited (node_cell ?cur)" by simp
        from q have rq: "route m s q" by blast
        from top_g_least[OF inv False rq lq un] cur_ok show ?thesis
          by (simp add: node_ok_def)
      qed
      with r l have "best_route m s ?t ?p" unfolding best_route_def by blast
      with res show ?thesis by blast
    next
      case nt: False
      let ?vis' = "marked visited (node_cell ?cur)"
      let ?pq' = "pq_pop (tie 0) pq @ map (child destX destY ?cur)
                    (filter (pushable m ?vis' ?cur) moves)"
      have st: "astar_step (tie 0) m destX destY visited pq = Next ?vis' ?pq'"
        using nt step by simp
      from search_inv_step[OF rect inv False nt]
      have inv': "search_inv m s ?t ?vis' ?pq'" by simp
      have "aStar_loop tie m destX destY visited pq
            = aStar_loop (\<lambda>k. tie (Suc k)) m destX destY ?vis' ?pq'"
        using False st by (subst aStar_loop.simps) simp
      with "1.IH"[OF False st rect inv'] show ?thesis by simp
    qed
  qed
qed

lemma at2_replicate_False: "at2 (replicate n (replicate k False)) i j \<noteq> Some True"
  by (auto simp: at2_def)

lemma search_inv_initial:
  assumes "in_grid m s"
  shows "search_inv m s t (replicate (length m) (replicate (length (m ! 0)) False))
           [Node (fst s) (snd s) 0 (heuristic (fst s) (snd s) (fst t) (snd t)) None]"
proof -
  let ?vis = "replicate (length m) (replicate (length (m ! 0)) False)"
  let ?n = "Node (fst s) (snd s) 0 (heuristic (fst s) (snd s) (fst t) (snd t)) None"
  have ns: "\<not> seen ?vis c" for c by (simp add: seen_def at2_replicate_False)
  have "same_shape m ?vis" by (simp add: same_shape_def list_all_length)
  moreover have "node_ok m s t ?n"
    using assms by (simp add: node_ok_def route_single node_cell_def)
  moreover have "start_covered s ?vis [?n]" by (simp add: start_covered_def node_cell_def)
  moreover have "border_covered m s ?vis [?n]" unfolding border_covered_def using ns by blast
  ultimately show ?thesis using ns unfolding search_inv_def by simp
qed

lemma aStar_correct:
  assumes "rectangular m" "in_grid m (sx, sy)"
  shows "\<exists>p. aStar tie m sx sy destX destY = Inr p \<and>
             (p = [] \<and> no_route m (sx, sy) (destX, destY) \<or>
              best_route m (sx, sy) (destX, destY) p)"
proof -
  from assms(1) have "m \<noteq> []" by (simp add: rectangular_def)
  moreover from search_inv_initial[OF assms(2), of "(destX, destY)"]
  have "search_inv m (sx, sy) (destX, destY)
          (replicate (length m) (replicate (length (m ! 0)) False))
          [Node sx sy 0 (heuristic sx sy destX destY) None]" by simp
  ultimately show ?thesis
    using aStar_loop_correct[OF assms(1), of "(sx, sy)" destX destY _ _ tie]
    by (simp add: aStar_def)
qed

lemma free_path_route:
  "free_path m s t p \<longleftrightarrow> route m s p \<and> last p = t \<and> passable m s"
  by (cases p) (auto simp: free_path_def route_def)

lemma route_last_in_grid:
  assumes "route m s p" "in_grid m s"
  shows "in_grid m (last p)"
proof (cases "tl p = []")
  case True
  with assms show ?thesis by (cases p) (auto simp: route_def)
next
  case False
  with assms(1) have "last p = last (tl p)" "list_all (passable m) (tl p)"
    by (cases p; auto simp: route_def)+
  with False have "passable m (last p)" by (auto simp: list_all_iff)
  then show ?thesis by (simp add: passable_def)
qed

lemma best_route_shortest:
  "passable m s \<Longrightarrow> best_route m s t p \<Longrightarrow> shortest_free_path m s t p"
  by (auto simp: best_route_def shortest_free_path_def free_path_route)

lemma no_route_no_free_path: "no_route m s t \<Longrightarrow> \<not> free_path m s t q"
  by (auto simp: no_route_def free_path_route)

lemma aStar_target_outside:
  assumes "rectangular m" "in_grid m (sx, sy)" "\<not> in_grid m (tx, ty)"
  shows "aStar tie m sx sy tx ty = Inr []"
proof -
  from aStar_correct[OF assms(1,2), of tie tx ty] obtain p where
    p: "aStar tie m sx sy tx ty = Inr p"
       "p = [] \<and> no_route m (sx, sy) (tx, ty) \<or> best_route m (sx, sy) (tx, ty) p"
    by blast
  have "\<not> best_route m (sx, sy) (tx, ty) p"
    using route_last_in_grid[OF _ assms(2), of p] assms(3) by (auto simp: best_route_def)
  with p show ?thesis by blast
qed

text \<open>Every queued node carries a route, on any map, rectangular or not.\<close>

lemma aStar_loop_sound:
  "list_all (node_ok m s (destX, destY)) pq \<Longrightarrow>
   aStar_loop tie m destX destY visited pq = Inr p \<Longrightarrow> p \<noteq> [] \<Longrightarrow>
   route m s p \<and> last p = (destX, destY)"
proof (induction tie m destX destY visited pq rule: aStar_loop.induct)
  case (1 tie m destX destY visited pq)
  let ?cur = "pq_top (tie 0) pq"
  from "1.prems"(2,3) have ne: "pq \<noteq> []" by (subst (asm) aStar_loop.simps) (auto split: if_splits)
  from "1.prems"(1) pq_top_in[OF ne, of "tie 0"] have cur_ok: "node_ok m s (destX, destY) ?cur"
    by (auto simp: list_all_iff)
  show ?case
  proof (cases "astar_step (tie 0) m destX destY visited pq")
    case (Done r)
    with "1.prems"(2) ne have r: "r = Inr p" by (subst (asm) aStar_loop.simps) simp
    with Done have "p = rev (chain ?cur)" "node_x ?cur = destX" "node_y ?cur = destY"
      by (auto simp: astar_step_def Let_def split: if_splits sum.splits)
    with cur_ok show ?thesis
      by (simp add: node_ok_def last_rev hd_chain node_cell_def)
  next
    case (Next visited' pq')
    then obtain
      nl: "neighbours_loop m destX destY visited' ?cur (pq_pop (tie 0) pq) moves = Inr pq'"
      by (auto simp: astar_step_def Let_def split: if_splits sum.splits)
    note pq' = neighbours_loop_Inr[OF nl]
    have "node_ok m s (destX, destY) n" if "n \<in> set pq'" for n
    proof -
      from that pq' consider "n \<in> set (pq_pop (tie 0) pq)"
        | d where "d \<in> set moves" "pushable m visited' ?cur d" "n = child destX destY ?cur d"
        by auto
      then show ?thesis
      proof cases
        case 1
        with pq_pop_set[OF ne, of "tie 0"] "1.prems"(1) show ?thesis
          by (auto simp: list_all_iff)
      next
        case 2
        with child_ok[OF cur_ok, of visited' d] show ?thesis by simp
      qed
    qed
    then have oks: "list_all (node_ok m s (destX, destY)) pq'" unfolding list_all_iff by blast
    from "1.prems"(2) ne Next
    have "aStar_loop (\<lambda>k. tie (Suc k)) m destX destY visited' pq' = Inr p"
      by (subst (asm) aStar_loop.simps) simp
    from "1.IH"[OF ne Next oks this "1.prems"(3)] show ?thesis .
  qed
qed

lemma aStar_loop_turns:
  "aStar_loop tie m destX destY visited pq =
     (case astar_turns k tie m destX destY visited pq of
        Done r \<Rightarrow> r
      | Next visited' pq' \<Rightarrow> aStar_loop (\<lambda>i. tie (k + i)) m destX destY visited' pq')"
proof (induction k arbitrary: tie visited pq)
  case 0
  show ?case by simp
next
  case (Suc k)
  show ?case
  proof (cases "pq = []")
    case True
    then show ?thesis by (subst aStar_loop.simps) simp
  next
    case False
    show ?thesis
    proof (cases "astar_step (tie 0) m destX destY visited pq")
      case (Done r)
      with False show ?thesis by (subst aStar_loop.simps) simp
    next
      case (Next visited' pq')
      with False Suc.IH[of "\<lambda>i. tie (Suc i)" visited' pq'] show ?thesis
        by (subst aStar_loop.simps) (simp split: outcome.split)
    qed
  qed
qed

section \<open>Claims about the search\<close>

text \<open>
  C1 (optimality): on a rectangular map, whenever some obstacle-avoiding 4-connected
  path from the origin to the target exists, aStar (with the Manhattan heuristic, and
  whatever the queue does with ties) returns an obstacle-avoiding path from the origin
  to the target that is no longer than any other: its step count is the true
  shortest step count.
\<close>

theorem aStar_optimal:
  assumes "rectangular m" "free_path m (sx, sy) (tx, ty) q"
  shows "\<exists>p. aStar tie m sx sy tx ty = Inr p \<and> shortest_free_path m (sx, sy) (tx, ty) p"
proof -
  from assms(2) have ps: "passable m (sx, sy)" by (simp add: free_path_route)
  then have "in_grid m (sx, sy)" by (simp add: passable_def)
  from aStar_correct[OF assms(1) this, of tie tx ty] obtain p where
    p: "aStar tie m sx sy tx ty = Inr p"
       "p = [] \<and> no_route m (sx, sy) (tx, ty) \<or> best_route m (sx, sy) (tx, ty) p"
    by blast
  from assms(2) have "\<not> no_route m (sx, sy) (tx, ty)"
    using no_route_no_free_path by blast
  with p(2) have "best_route m (sx, sy) (tx, ty) p" by blast
  with ps p(1) best_route_shortest show ?thesis by blast
qed

theorem aStar_optimal_witness:
  "rectangular [[2,0,1,0,0],[0,0,1,0,0],[0,0,1,0,0],[0,0,1,0,0],[0,0,0,0,0]] \<and>
   free_path [[2,0,1,0,0],[0,0,1,0,0],[0,0,1,0,0],[0,0,1,0,0],[0,0,0,0,0]] (0, 0) (4, 4)
     [(0,0),(1,0),(2,0),(3,0),(4,0),(4,1),(4,2),(4,3),(4,4)] \<and>
   (\<exists>p. aStar (\<lambda>_. 0) [[2,0,1,0,0],[0,0,1,0,0],[0,0,1,0,0],[0,0,1,0,0],[0,0,0,0,0]] 0 0 4 4 = Inr p \<and>
        shortest_free_path [[2,0,1,0,0],[0,0,1,0,0],[0,0,1,0,0],[0,0,1,0,0],[0,0,0,0,0]] (0, 0) (4, 4) p)"
proof -
  have r: "rectangular [[2,0,1,0,0],[0,0,1,0,0],[0,0,1,0,0],[0,0,1,0,0],[0,0,0,0,0]]"
    by code_simp
  have f: "free_path [[2,0,1,0,0],[0,0,1,0,0],[0,0,1,0,0],[0,0,1,0,0],[0,0,0,0,0]] (0, 0) (4, 4)
     [(0,0),(1,0),(2,0),(3,0),(4,0),(4,1),(4,2),(4,3),(4,4)]"
    by code_simp
  from aStar_optimal[OF r f, where tie = "\<lambda>_. 0"] r f show ?thesis by blast
qed

text \<open>
  C2 (soundness): on every map, from a passable origin inside the grid, a non-empty
  path returned by aStar has 4-adjacent consecutive cells, only cells that are inside
  the grid and no obstacle, the origin as first cell and the target as last cell.
\<close>

theorem aStar_sound:
  assumes "passable m (sx, sy)" "aStar tie m sx sy tx ty = Inr p" "p \<noteq> []"
  shows "successively adjacent4 p \<and> list_all (passable m) p \<and> hd p = (sx, sy) \<and>
         last p = (tx, ty)"
proof -
  from assms(1) have ig: "in_grid m (sx, sy)" by (simp add: passable_def)
  have "node_ok m (sx, sy) (tx, ty) (Node sx sy 0 (heuristic sx sy tx ty) None)"
    using ig by (simp add: node_ok_def route_single node_cell_def)
  then have "list_all (node_ok m (sx, sy) (tx, ty)) [Node sx sy 0 (heuristic sx sy tx ty) None]"
    by simp
  moreover from assms(2) have
    "aStar_loop tie m tx ty (replicate (length m) (replicate (length (m ! 0)) False))
       [Node sx sy 0 (heuristic sx sy tx ty) None] = Inr p"
    by (auto simp: aStar_def split: if_splits)
  ultimately have "route m (sx, sy) p \<and> last p = (tx, ty)"
    using assms(3) by (rule aStar_loop_sound)
  with assms(1) have "free_path m (sx, sy) (tx, ty) p" by (simp add: free_path_route)
  then show ?thesis by (simp add: free_path_def)
qed

theorem aStar_sound_witness:
  "passable [[2,0,1],[0,0,0]] (0, 0) \<and>
   aStar (\<lambda>_. 0) [[2,0,1],[0,0,0]] 0 0 1 2 = Inr [(0,0),(1,0),(1,1),(1,2)] \<and>
   successively adjacent4 [(0,0),(1,0),(1,1),(1,2)] \<and>
   list_all (passable [[2,0,1],[0,0,0]]) [(0,0),(1,0),(1,1),(1,2)] \<and>
   hd [(0,0),(1,0),(1,1),(1,2)] = (0, 0) \<and> last [(0,0),(1,0),(1,1),(1,2)] = (1::int, 2::int)"
proof -
  have p: "passable [[2,0,1],[0,0,0]] (0, 0)" by code_simp
  have a: "aStar (\<lambda>_. 0) [[2,0,1],[0,0,0]] 0 0 1 2 = Inr [(0,0),(1,0),(1,1),(1,2)]"
    by code_simp
  from aStar_sound[OF p a] p a show ?thesis by simp
qed

text \<open>
  C3 as stated fails: the search never looks its origin up in the map, so from an
  origin that is an obstacle cell it returns a non-empty path although no
  obstacle-avoiding path exists (such a path would contain the origin, see
  \<open>free_path_route\<close>). On the one-row map \<open>[[1, 0]]\<close>, from the obstacle \<open>(0, 0)\<close> to
  \<open>(0, 1)\<close>:
\<close>

theorem aStar_obstacle_origin_counterexample:
  "rectangular [[1, 0]] \<and> in_grid [[1, 0]] (0, 0) \<and> \<not> passable [[1, 0]] (0, 0) \<and>
   aStar (\<lambda>_. 0) [[1, 0]] 0 0 0 1 = Inr [(0, 0), (0, 1)]"
  by code_simp

text \<open>
  C3, amended (completeness and no fault): on a rectangular map, from an origin that
  is inside the grid and no obstacle, aStar returns a path and never faults; the path
  is non-empty exactly when an obstacle-avoiding path from the origin to the target
  exists, and empty otherwise.
\<close>

theorem aStar_complete:
  assumes "rectangular m" "passable m (sx, sy)"
  shows "\<exists>p. aStar tie m sx sy tx ty = Inr p \<and>
             (p \<noteq> [] \<longleftrightarrow> (\<exists>q. free_path m (sx, sy) (tx, ty) q))"
proof -
  from assms(2) have "in_grid m (sx, sy)" by (simp add: passable_def)
  from aStar_correct[OF assms(1) this, of tie tx ty] obtain p where
    p: "aStar tie m sx sy tx ty = Inr p"
       "p = [] \<and> no_route m (sx, sy) (tx, ty) \<or> best_route m (sx, sy) (tx, ty) p"
    by blast
  from p(2) show ?thesis
  proof
    assume "p = [] \<and> no_route m (sx, sy) (tx, ty)"
    with p(1) no_route_no_free_path show ?thesis by blast
  next
    assume b: "best_route m (sx, sy) (tx, ty) p"
    then have "p \<noteq> []" by (auto simp: best_route_def route_def)
    moreover from b assms(2) have "free_path m (sx, sy) (tx, ty) p"
      by (simp add: best_route_def free_path_route)
    ultimately show ?thesis using p(1) by blast
  qed
qed

theorem aStar_complete_witness:
  "rectangular [[2,0,0],[0,1,1],[0,1,0]] \<and> passable [[2,0,0],[0,1,1],[0,1,0]] (0, 0) \<and>
   aStar (\<lambda>_. 0) [[2,0,0],[0,1,1],[0,1,0]] 0 0 2 2 = Inr [] \<and>
   \<not> (\<exists>q. free_path [[2,0,0],[0,1,1],[0,1,0]] (0, 0) (2, 2) q)"
proof -
  have r: "rectangular [[2,0,0],[0,1,1],[0,1,0]]" by code_simp
  have p: "passable [[2,0,0],[0,1,1],[0,1,0]] (0, 0)" by code_simp
  have a: "aStar (\<lambda>_. 0) [[2,0,0],[0,1,1],[0,1,0]] 0 0 2 2 = Inr []" by code_simp
  from aStar_complete[OF r p, of "\<lambda>_. 0" 2 2] a r p show ?thesis by simp
qed

text \<open>
  C6 (closed-set skip on pop): a popped node whose cell is already visited is to be
  skipped, without expansion and without pushing neighbours. The code sets out to
  keep a closed set (it keeps \<open>visited\<close> and tests it before every push), but the
  loop has no test of \<open>visited\<close> for the node it pops, so it does not do what the
  claim says. On the map below, searching from \<open>(1, 0)\<close> for the obstacle \<open>(0, 0)\<close>,
  the cell \<open>(2, 1)\<close> is queued twice (from \<open>(2, 0)\<close> and from \<open>(1, 1)\<close>). After four
  turns it is visited and its second node is on top; the fifth turn expands it
  again and pushes a second node for its neighbour \<open>(3, 1)\<close>.
\<close>

theorem popped_visited_node_not_skipped:
  "(case astar_turns 4 (\<lambda>_. 0) [[1,1],[0,0],[0,0],[1,0]] 0 0
          (replicate 4 (replicate 2 False)) [Node 1 0 0 (heuristic 1 0 0 0) None] of
      Done r \<Rightarrow> False
    | Next visited pq \<Rightarrow>
        seen visited (node_cell (pq_top 0 pq)) \<and>
        (case astar_step 0 [[1,1],[0,0],[0,0],[1,0]] 0 0 visited pq of
           Done r \<Rightarrow> False
         | Next visited' pq' \<Rightarrow>
             map node_cell (pq_pop 0 pq) = [(3, 1)] \<and> map node_cell pq' = [(3, 1), (3, 1)]))"
  by code_simp

section \<open>Searching from the target itself\<close>

lemma pq_top_single: "pq_top c [n] = n"
  using pq_top_in[of "[n]" c] by simp

lemma aStar_loop_at_target:
  "aStar_loop tie m destX destY visited [Node destX destY g h p]
   = Inr (rev (chain (Node destX destY g h p)))"
  by (subst aStar_loop.simps) (simp add: astar_step_def pq_top_single del: chain.simps)

text \<open>
  C8: on every map with at least one row, for every cell \<open>(x, y)\<close> (inside the grid or
  not, obstacle or not), aStar called with origin and target both \<open>(x, y)\<close> returns the
  one-cell path \<open>[(x, y)]\<close>: the result does not depend on the contents of the map.
\<close>

theorem aStar_origin_is_target:
  "m \<noteq> [] \<Longrightarrow> aStar tie m x y x y = Inr [(x, y)]"
  by (simp add: aStar_def aStar_loop_at_target)

theorem aStar_origin_is_target_witness:
  "[[1::int]] \<noteq> [] \<and> aStar (\<lambda>_. 0) [[1]] 7 (-2) 7 (-2) = Inr [(7, -2)]"
  using aStar_origin_is_target[of "[[1]]" "\<lambda>_. 0" 7 "-2"] by simp

section \<open>The run of main\<close>

subsection \<open>Bucketing\<close>

lemma bucket_push_Inr:
  "0 \<le> snd dp \<Longrightarrow> snd dp < int (length b) \<Longrightarrow>
   bucket_push b dp = Inr (b[nat (snd dp) := b ! nat (snd dp) @ [fst dp]])"
  by (simp add: bucket_push_def Let_def)

lemma bucket_push_Inl:
  "\<not> (0 \<le> snd dp \<and> snd dp < int (length b)) \<Longrightarrow> bucket_push b dp = Inl OutOfRange"
  by (auto simp: bucket_push_def Let_def)

lemma fill_buckets_Inr:
  "list_all (\<lambda>dp. 0 \<le> snd dp \<and> snd dp < int (length b)) dps \<Longrightarrow>
   fill_buckets b dps = Inr (map (\<lambda>k. b ! k @ map fst (tier (int k) dps)) [0..<length b])"
proof (induction dps arbitrary: b)
  case Nil
  show ?case by (simp add: tier_def map_nth)
next
  case (Cons dp dps)
  let ?b = "b[nat (snd dp) := b ! nat (snd dp) @ [fst dp]]"
  from Cons.prems have r: "0 \<le> snd dp" "snd dp < int (length b)"
    and rest: "list_all (\<lambda>dp. 0 \<le> snd dp \<and> snd dp < int (length ?b)) dps"
    by simp_all
  have "map (\<lambda>k. ?b ! k @ map fst (tier (int k) dps)) [0..<length b]
        = map (\<lambda>k. b ! k @ map fst (tier (int k) (dp # dps))) [0..<length b]"
  proof (rule map_cong[OF refl])
    fix k assume "k \<in> set [0..<length b]"
    then have k: "k < length b" by simp
    show "?b ! k @ map fst (tier (int k) dps) = b ! k @ map fst (tier (int k) (dp # dps))"
    proof (cases "k = nat (snd dp)")
      case True
      with r have "snd dp = int k" by simp
      with True k show ?thesis by (simp add: tier_def)
    next
      case False
      with r have "snd dp \<noteq> int k" by auto
      with False k show ?thesis by (simp add: tier_def)
    qed
  qed
  with Cons.IH[OF rest] bucket_push_Inr[OF r] show ?case by simp
qed

lemma fill_buckets_Inl:
  "\<not> list_all (\<lambda>dp. 0 \<le> snd dp \<and> snd dp < int (length b)) dps \<Longrightarrow>
   fill_buckets b dps = Inl OutOfRange"
proof (induction dps arbitrary: b)
  case Nil
  then show ?case by simp
next
  case (Cons dp dps)
  show ?case
  proof (cases "0 \<le> snd dp \<and> snd dp < int (length b)")
    case False
    then show ?thesis by (simp add: bucket_push_Inl)
  next
    case True
    let ?b = "b[nat (snd dp) := b ! nat (snd dp) @ [fst dp]]"
    from True Cons.prems
    have "\<not> list_all (\<lambda>dp. 0 \<le> snd dp \<and> snd dp < int (length ?b)) dps" by simp
    from Cons.IH[OF this] True show ?thesis by (simp add: bucket_push_Inr)
  qed
qed

lemma valid_priorities_four:
  "list_all (\<lambda>dp. 0 \<le> snd dp \<and> snd dp < int (length (replicate 4 ([]::cell list)))) dps
   = valid_priorities dps"
  by (auto simp: valid_priorities_def list_all_iff)

lemma make_buckets_eq:
  "make_buckets dps =
     (if valid_priorities dps then Inr (map (\<lambda>k. map fst (tier (int k) dps)) [0..<4])
      else Inl OutOfRange)"
proof (cases "valid_priorities dps")
  case True
  then have "list_all (\<lambda>dp. 0 \<le> snd dp \<and> snd dp < int (length (replicate 4 ([]::cell list)))) dps"
    using valid_priorities_four[of dps] by blast
  from fill_buckets_Inr[OF this] True show ?thesis
    by (simp add: make_buckets_def)
next
  case False
  then have "\<not> list_all (\<lambda>dp. 0 \<le> snd dp \<and> snd dp < int (length (replicate 4 ([]::cell list)))) dps"
    using valid_priorities_four[of dps] by blast
  from fill_buckets_Inl[OF this] False show ?thesis
    by (simp add: make_buckets_def)
qed

lemma retag_tier: "map (\<lambda>d. (d, p)) (map fst (tier p dps)) = tier p dps"
  by (induction dps) (auto simp: tier_def)

lemma upt_1_4: "[1..<4] = [1, 2, 3]"
  by (simp add: upt_rec)

lemma sorted_addresses_tiers:
  "sorted_addresses (map (\<lambda>k. map fst (tier (int k) dps)) [0..<4])
   = tier 1 dps @ tier 2 dps @ tier 3 dps"
proof -
  have "map (\<lambda>k. map fst (tier (int k) dps)) [0..<4] ! p = map fst (tier (int p) dps)"
    if "p < 4" for p using that by simp
  then show ?thesis
    unfolding sorted_addresses_def upt_1_4
    using retag_tier[of 1 dps] retag_tier[of 2 dps] retag_tier[of 3 dps]
    by (simp del: map_map)
qed

subsection \<open>The two loops\<close>

lemma final_origin_snoc:
  "final_origin origin (r @ [l]) = (if leg_path l = [] then final_origin origin r else leg_dest l)"
  by (induction r arbitrary: origin) simp_all

lemma chained_snoc:
  "chained ties m k origin (r @ [l]) \<longleftrightarrow>
     chained ties m k origin r \<and> leg_start l = final_origin origin r \<and>
     aStar (ties (k + length r)) m (fst (final_origin origin r)) (snd (final_origin origin r))
       (fst (leg_dest l)) (snd (leg_dest l)) = Inr (leg_path l)"
  by (induction r arbitrary: k origin) auto

lemma attempt_step:
  assumes rect: "rectangular m" and inv: "plan_inv ties m origin s"
  shows "\<exists>s'. attempt ties m priority s d = Inr s' \<and> plan_inv ties m origin s' \<and>
              map leg_entry (report s') = map leg_entry (report s) @ [(d, priority)]"
proof -
  from inv have ig: "in_grid m (startX s, startY s)"
    and ch: "chained ties m 0 origin (report s)"
    and fo: "final_origin origin (report s) = (startX s, startY s)"
    unfolding plan_inv_def by metis+
  from aStar_correct[OF rect ig, of "ties (length (report s))" "fst d" "snd d"] obtain p where
    p: "aStar (ties (length (report s))) m (startX s) (startY s) (fst d) (snd d) = Inr p"
    and pr: "p = [] \<and> no_route m (startX s, startY s) (fst d, snd d) \<or>
             best_route m (startX s, startY s) (fst d, snd d) p"
    by blast
  let ?l = "\<lparr>leg_start = (startX s, startY s), leg_dest = d, leg_priority = priority,
             leg_path = p\<rparr>"
  have ch': "chained ties m 0 origin (report s @ [?l])"
    using ch fo p by (simp add: chained_snoc)
  show ?thesis
  proof (cases "p = []")
    case True
    let ?s' = "s\<lparr>report := report s @ [?l]\<rparr>"
    have "attempt ties m priority s d = Inr ?s'" using p True by (simp add: attempt_def)
    moreover have "plan_inv ties m origin ?s'"
      using ig ch' fo True by (simp add: plan_inv_def final_origin_snoc)
    moreover have "map leg_entry (report ?s') = map leg_entry (report s) @ [(d, priority)]"
      by (simp add: leg_entry_def)
    ultimately show ?thesis by blast
  next
    case False
    let ?s' = "s\<lparr>startX := fst d, startY := snd d, report := report s @ [?l]\<rparr>"
    from False pr have "route m (startX s, startY s) p" "last p = d"
      by (simp_all add: best_route_def)
    with route_last_in_grid[OF _ ig, of p] have "in_grid m d" by simp
    have "attempt ties m priority s d = Inr ?s'" using p False by (simp add: attempt_def Let_def)
    moreover have "plan_inv ties m origin ?s'"
      using \<open>in_grid m d\<close> ch' False by (simp add: plan_inv_def final_origin_snoc)
    moreover have "map leg_entry (report ?s') = map leg_entry (report s) @ [(d, priority)]"
      by (simp add: leg_entry_def)
    ultimately show ?thesis by blast
  qed
qed

lemma bucket_loop_total:
  assumes rect: "rectangular m"
  shows "plan_inv ties m origin s \<Longrightarrow>
         \<exists>s'. bucket_loop ties m priority s ds = Inr s' \<and> plan_inv ties m origin s' \<and>
              map leg_entry (report s') = map leg_entry (report s) @ map (\<lambda>d. (d, priority)) ds"
proof (induction ds arbitrary: s)
  case Nil
  then show ?case by simp
next
  case (Cons d ds)
  from attempt_step[OF rect Cons.prems, of priority d] obtain s1 where
    s1: "attempt ties m priority s d = Inr s1" "plan_inv ties m origin s1"
        "map leg_entry (report s1) = map leg_entry (report s) @ [(d, priority)]"
    by blast
  from Cons.IH[OF s1(2)] obtain s' where
    "bucket_loop ties m priority s1 ds = Inr s'" "plan_inv ties m origin s'"
    "map leg_entry (report s') = map leg_entry (report s1) @ map (\<lambda>d. (d, priority)) ds"
    by blast
  with s1 show ?case by simp
qed

lemma priority_loop_total:
  assumes rect: "rectangular m"
  shows "plan_inv ties m origin s \<Longrightarrow>
         \<exists>s'. priority_loop ties m buckets s ps = Inr s' \<and> plan_inv ties m origin s' \<and>
              map leg_entry (report s') = map leg_entry (report s) @
                concat (map (\<lambda>p. map (\<lambda>d. (d, int p)) (buckets ! p)) ps)"
proof (induction ps arbitrary: s)
  case Nil
  then show ?case by simp
next
  case (Cons p ps)
  from bucket_loop_total[OF rect Cons.prems, of "int p" "buckets ! p"] obtain s1 where
    s1: "bucket_loop ties m (int p) s (buckets ! p) = Inr s1" "plan_inv ties m origin s1"
        "map leg_entry (report s1) = map leg_entry (report s) @ map (\<lambda>d. (d, int p)) (buckets ! p)"
    by blast
  from Cons.IH[OF s1(2)] obtain s' where
    "priority_loop ties m buckets s1 ps = Inr s'" "plan_inv ties m origin s'"
    "map leg_entry (report s') = map leg_entry (report s1) @
       concat (map (\<lambda>p. map (\<lambda>d. (d, int p)) (buckets ! p)) ps)"
    by blast
  with s1 show ?case by simp
qed

lemma run_main_total:
  assumes "valid_priorities dps" "rectangular m" "in_grid m start"
  shows "\<exists>legs. run_main ties m start dps = Inr (tier 1 dps @ tier 2 dps @ tier 3 dps, legs) \<and>
               map leg_entry legs = tier 1 dps @ tier 2 dps @ tier 3 dps \<and>
               chained ties m 0 start legs"
proof -
  let ?b = "map (\<lambda>k. map fst (tier (int k) dps)) [0..<4]"
  let ?s0 = "\<lparr>startX = fst start, startY = snd start, report = []\<rparr>"
  have mb: "make_buckets dps = Inr ?b" using assms(1) by (simp add: make_buckets_eq)
  have "plan_inv ties m start ?s0" using assms(3) by (simp add: plan_inv_def)
  from priority_loop_total[OF assms(2) this, of ?b "[1..<4]"] obtain s' where
    s': "priority_loop ties m ?b ?s0 [1..<4] = Inr s'" "plan_inv ties m start s'"
        "map leg_entry (report s') = sorted_addresses ?b"
    by (auto simp: sorted_addresses_def)
  from s'(2) have "chained ties m 0 start (report s')" by (simp add: plan_inv_def)
  with mb s'(1,3) show ?thesis
    by (simp add: run_main_def sorted_addresses_tiers)
qed


text \<open>
  A run on a 3 by 3 map whose cell \<open>(2, 2)\<close> is walled in, with destinations of
  priorities 2, 1, 3 and 0.
\<close>

lemma example_run:
  "run_main (\<lambda>_ _. 0) [[2,0,0],[0,1,1],[0,1,0]] (0, 0)
     [((2, 2), 2), ((0, 2), 1), ((2, 0), 3), ((1, 0), 0)]
   = Inr ([((0, 2), 1), ((2, 2), 2), ((2, 0), 3)],
     [\<lparr>leg_start = (0, 0), leg_dest = (0, 2), leg_priority = 1,
        leg_path = [(0, 0), (0, 1), (0, 2)]\<rparr>,
      \<lparr>leg_start = (0, 2), leg_dest = (2, 2), leg_priority = 2, leg_path = []\<rparr>,
      \<lparr>leg_start = (0, 2), leg_dest = (2, 0), leg_priority = 3,
        leg_path = [(0, 2), (0, 1), (0, 0), (1, 0), (2, 0)]\<rparr>])"
  by code_simp

lemma example_valid:
  "valid_priorities [((2, 2), 2), ((0, 2), 1), ((2, 0), 3), ((1, 0), 0)]"
  "rectangular [[2,0,0],[0,1,1],[0,1,0]]"
  "in_grid [[2,0,0],[0,1,1],[0,1,0]] (0, 0)"
  by code_simp+

section \<open>Claims about main\<close>

text \<open>
  C4 (tier ordering): for a destination list whose priorities are indices of the
  bucket vector, on a rectangular map with the start inside the grid, the run
  completes; the sorted listing and the legs of the run report both consist of all
  destinations of priority 1 in their input order, then all of priority 2 in their
  input order, then all of priority 3 in their input order.
\<close>

theorem tier_ordering:
  assumes "valid_priorities dps" "rectangular m" "in_grid m start"
  shows "\<exists>listing legs. run_main ties m start dps = Inr (listing, legs) \<and>
           listing = tier 1 dps @ tier 2 dps @ tier 3 dps \<and>
           map leg_entry legs = tier 1 dps @ tier 2 dps @ tier 3 dps"
  using run_main_total[OF assms, of ties] by blast

theorem tier_ordering_witness:
  "valid_priorities [((2, 2), 2), ((0, 2), 1), ((2, 0), 3), ((1, 0), 0)] \<and>
   rectangular [[2,0,0],[0,1,1],[0,1,0]] \<and> in_grid [[2,0,0],[0,1,1],[0,1,0]] (0, 0) \<and>
   tier 1 [((2, 2), 2), ((0, 2), 1), ((2, 0), 3), ((1, 0), 0)] @
   tier 2 [((2, 2), 2), ((0, 2), 1), ((2, 0), 3), ((1, 0), 0)] @
   tier 3 [((2, 2), 2), ((0, 2), 1), ((2, 0), 3), ((1, 0), 0)]
     = [((0, 2), 1), ((2, 2), 2), ((2, 0), 3)] \<and>
   map leg_entry
     [\<lparr>leg_start = (0, 0), leg_dest = (0, 2), leg_priority = 1,
        leg_path = [(0, 0), (0, 1), (0, 2)]\<rparr>,
      \<lparr>leg_start = (0, 2), leg_dest = (2, 2), leg_priority = 2, leg_path = []\<rparr>,
      \<lparr>leg_start = (0, 2), leg_dest = (2, 0), leg_priority = 3,
        leg_path = [(0, 2), (0, 1), (0, 0), (1, 0), (2, 0)]\<rparr>]
     = [((0, 2), 1), ((2, 2), 2), ((2, 0), 3)]"
proof -
  note h = example_valid
  from tier_ordering[OF h, of "\<lambda>_ _. 0"] h show ?thesis
    by (simp add: example_run)
qed



text \<open>
  C7 as stated fails: the code has no bounds check of the target and no OutOfBounds
  error. With the origin inside the grid and the target outside, the search runs
  until the queue is empty and returns the empty path, as for an unreachable target.
\<close>

theorem target_outside_counterexample:
  "rectangular [[0]] \<and> in_grid [[0]] (0, 0) \<and> \<not> in_grid [[0]] (5, 5) \<and>
   aStar (\<lambda>_. 0) [[0]] 0 0 5 5 = Inr []"
  by code_simp

text \<open>
  C7, amended: on a rectangular map, with the current start inside the grid and a
  destination outside it, aStar returns the empty path (the result of an unreachable
  target, no error), and the planner records the leg with an empty path, keeps its
  start and goes on with the next destination.
\<close>

theorem target_outside_grid:
  assumes "rectangular m" "in_grid m (startX s, startY s)" "\<not> in_grid m destination"
  shows "aStar (ties (length (report s))) m (startX s) (startY s) (fst destination) (snd destination)
           = Inr [] \<and>
         attempt ties m priority s destination =
           Inr (s\<lparr>report := report s @
                  [\<lparr>leg_start = (startX s, startY s), leg_dest = destination,
                    leg_priority = priority, leg_path = []\<rparr>]\<rparr>)"
  using aStar_target_outside[OF assms(1,2), of "fst destination" "snd destination"] assms(3)
  by (simp add: attempt_def)

theorem target_outside_grid_witness:
  "rectangular [[0]] \<and> in_grid [[0]] (0, 0) \<and> \<not> in_grid [[0]] (5, 5) \<and>
   attempt (\<lambda>_ _. 0) [[0]] 2 \<lparr>startX = 0, startY = 0, report = []\<rparr> (5, 5) =
     Inr \<lparr>startX = 0, startY = 0,
          report = [\<lparr>leg_start = (0, 0), leg_dest = (5, 5), leg_priority = 2, leg_path = []\<rparr>]\<rparr>"
proof -
  have r: "rectangular [[0]]" by code_simp
  have i: "in_grid [[0]] (startX \<lparr>startX = 0, startY = 0, report = []\<rparr>,
                          startY \<lparr>startX = 0, startY = 0, report = []\<rparr>)"
    by (simp add: in_grid_def isValid_def grid_rows_def grid_cols_def)
  have o: "\<not> in_grid [[0]] (5, 5)" by code_simp
  from target_outside_grid[OF r i o, of "\<lambda>_ _. 0" 2] r i o show ?thesis by simp
qed

text \<open>
  C9 (bucket access): when every priority of the destination list lies in 0..3,
  every \<open>buckets[priority]\<close> is an access inside the vector of four buckets and the
  bucketing completes; when some priority lies outside 0..3, the access falls
  outside the vector.
\<close>

theorem bucket_access:
  "(valid_priorities dps \<longrightarrow> (\<exists>buckets. make_buckets dps = Inr buckets \<and> length buckets = 4)) \<and>
   (\<not> valid_priorities dps \<longrightarrow> make_buckets dps = Inl OutOfRange)"
  by (simp add: make_buckets_eq)

theorem bucket_access_witness:
  "valid_priorities [((2, 2), 2), ((0, 2), 0), ((1, 1), 3)] \<and>
   (\<exists>buckets. make_buckets [((2, 2), 2), ((0, 2), 0), ((1, 1), 3)] = Inr buckets \<and>
              length buckets = 4) \<and>
   \<not> valid_priorities [((2, 2), 2), ((0, 2), 4)] \<and>
   make_buckets [((2, 2), 2), ((0, 2), 4)] = Inl OutOfRange"
proof -
  have v: "valid_priorities [((2, 2), 2), ((0, 2), 0), ((1, 1), 3)]" by code_simp
  have n: "\<not> valid_priorities [((2, 2), 2), ((0, 2), 4)]" by code_simp
  from bucket_access[of "[((2, 2), 2), ((0, 2), 0), ((1, 1), 3)]"]
       bucket_access[of "[((2, 2), 2), ((0, 2), 4)]"] v n
  show ?thesis by blast
qed

text \<open>
  C10 (priority 0): under the conditions of C4, a destination is in the sorted
  listing, and is attempted in the run report, exactly when its priority is 1, 2 or
  3; the destinations of priority 0 are put into bucket 0 and appear in neither.
\<close>

theorem priority_zero_omitted:
  assumes "valid_priorities dps" "rectangular m" "in_grid m start"
  shows "\<exists>buckets listing legs.
           make_buckets dps = Inr buckets \<and> buckets ! 0 = map fst (tier 0 dps) \<and>
           run_main ties m start dps = Inr (listing, legs) \<and>
           set listing = {dp \<in> set dps. snd dp \<in> {1, 2, 3}} \<and>
           set (map leg_entry legs) = {dp \<in> set dps. snd dp \<in> {1, 2, 3}}"
proof -
  from run_main_total[OF assms, of ties] obtain legs where
    l: "run_main ties m start dps = Inr (tier 1 dps @ tier 2 dps @ tier 3 dps, legs)"
       "map leg_entry legs = tier 1 dps @ tier 2 dps @ tier 3 dps"
    by blast
  have s: "set (tier 1 dps @ tier 2 dps @ tier 3 dps) = {dp \<in> set dps. snd dp \<in> {1, 2, 3}}"
    by (auto simp: tier_def)
  have "make_buckets dps = Inr (map (\<lambda>k. map fst (tier (int k) dps)) [0..<4])"
    using assms(1) by (simp add: make_buckets_eq)
  moreover have "map (\<lambda>k. map fst (tier (int k) dps)) [0..<4] ! 0 = map fst (tier 0 dps)"
    by (simp add: upt_rec)
  ultimately show ?thesis using l s by (metis (no_types, lifting))
qed

theorem priority_zero_omitted_witness:
  "valid_priorities [((2, 2), 2), ((0, 2), 1), ((2, 0), 3), ((1, 0), 0)] \<and>
   rectangular [[2,0,0],[0,1,1],[0,1,0]] \<and> in_grid [[2,0,0],[0,1,1],[0,1,0]] (0, 0) \<and>
   make_buckets [((2, 2), 2), ((0, 2), 1), ((2, 0), 3), ((1, 0), 0)]
     = Inr [[(1, 0)], [(0, 2)], [(2, 2)], [(2, 0)]] \<and>
   set [((0, 2), 1), ((2, 2), 2), ((2, 0), 3)]
     = {dp \<in> set ([((2, 2), 2), ((0, 2), 1), ((2, 0), 3), ((1, 0), 0)] :: (cell \<times> int) list).
          snd dp \<in> {1, 2, 3}}"
proof -
  note h = example_valid
  have b: "make_buckets [((2, 2), 2), ((0, 2), 1), ((2, 0), 3), ((1, 0), 0)]
     = Inr [[(1, 0)], [(0, 2)], [(2, 2)], [(2, 0)]]"
    by code_simp
  from priority_zero_omitted[OF h, of "\<lambda>_ _. 0"] h b show ?thesis
    by (simp add: example_run)
qed

end
